theory Spec2Isabelle
  imports Main "HOL-Library.Char_ord"
begin

section \<open>The metric record and the errors of main.go\<close>

text \<open>
  Go strings are byte sequences, and so is \<^typ>\<open>string\<close>. A \<open>Metrics\<close> value is a slice of
  pointers to records that are allocated once and never written again, so it is modelled
  as a list of record values.
\<close>

record Metric =
  Section :: string
  Prefix :: string
  Key :: string
  Val :: string

type_synonym Metrics = "Metric list"

text \<open>
  The error values that can reach \<open>fetchMetrics\<close> and \<open>parseLine\<close>: a failed \<open>conn.Do\<close>,
  the three failures of \<open>redis.Bytes\<close>, and the \<open>fmt.Errorf("expected 2 parts, got %d")\<close>
  of \<open>parseLine\<close>, which carries the number of parts.
\<close>

datatype error =
  ConnError string
  | ErrNil
  | ReplyError string
  | UnexpectedType
  | ExpectedTwoParts nat

section \<open>The library functions the parser calls\<close>

subsection \<open>Package strings\<close>

definition HasPrefix :: "string \<Rightarrow> string \<Rightarrow> bool" where
  "HasPrefix s p = (length p \<le> length s \<and> take (length p) s = p)"

definition HasSuffix :: "string \<Rightarrow> string \<Rightarrow> bool" where
  "HasSuffix s p = (length p \<le> length s \<and> drop (length s - length p) s = p)"

definition TrimPrefix :: "string \<Rightarrow> string \<Rightarrow> string" where
  "TrimPrefix s p = (if HasPrefix s p then drop (length p) s else s)"

text \<open>
  \<open>strings.Split\<close> and \<open>strings.SplitN\<close> run the loop of \<open>genSplit\<close>: cut at the first
  occurrence of the separator, continue on the rest. Every call in main.go passes a
  one-byte separator, which is a \<^typ>\<open>char\<close> here. \<open>SplitN\<close> is given the count as a
  natural number (main.go passes 2); a negative count is \<open>Split\<close>.
\<close>

function Split :: "string \<Rightarrow> char \<Rightarrow> string list" where
  "Split s sep =
     (if sep \<in> set s
      then takeWhile (\<lambda>c. c \<noteq> sep) s # Split (tl (dropWhile (\<lambda>c. c \<noteq> sep) s)) sep
      else [s])"
  by pat_completeness auto

lemma length_dropWhile_less:
  assumes "sep \<in> set s"
  shows "length (dropWhile (\<lambda>c. c \<noteq> sep) s) - Suc 0 < length s"
proof -
  from assms have "0 < length s" by (cases s) auto
  moreover have "length (dropWhile (\<lambda>c. c \<noteq> sep) s) \<le> length s"
    by (rule length_dropWhile_le)
  ultimately show ?thesis by linarith
qed

termination Split
  by (relation "measure (\<lambda>(s, sep). length s)") (auto simp: length_dropWhile_less)

declare Split.simps [simp del]

fun SplitN :: "string \<Rightarrow> char \<Rightarrow> nat \<Rightarrow> string list" where
  "SplitN s sep 0 = []"
| "SplitN s sep (Suc 0) = [s]"
| "SplitN s sep (Suc (Suc n)) =
     (if sep \<in> set s
      then takeWhile (\<lambda>c. c \<noteq> sep) s # SplitN (tl (dropWhile (\<lambda>c. c \<noteq> sep) s)) sep (Suc n)
      else [s])"

text \<open>
  \<open>strings.TrimSpace\<close> removes the runes with Unicode's White_Space property from both
  ends. On the bytes of the string these are the six ASCII characters and the UTF-8
  encodings of U+0085, U+00A0, U+1680, U+2000 to U+200A, U+2028, U+2029, U+202F, U+205F
  and U+3000; a byte sequence that is not a valid encoding decodes to the error rune, which
  is no space, and stops the trimming.
\<close>

definition space_runes :: "string list" where
  "space_runes =
     [[CHR 0x09], [CHR 0x0A], [CHR 0x0B], [CHR 0x0C], [CHR 0x0D], [CHR 0x20],
      [CHR 0xC2, CHR 0x85], [CHR 0xC2, CHR 0xA0], [CHR 0xE1, CHR 0x9A, CHR 0x80],
      [CHR 0xE2, CHR 0x80, CHR 0x80], [CHR 0xE2, CHR 0x80, CHR 0x81], [CHR 0xE2, CHR 0x80, CHR 0x82],
      [CHR 0xE2, CHR 0x80, CHR 0x83], [CHR 0xE2, CHR 0x80, CHR 0x84], [CHR 0xE2, CHR 0x80, CHR 0x85],
      [CHR 0xE2, CHR 0x80, CHR 0x86], [CHR 0xE2, CHR 0x80, CHR 0x87], [CHR 0xE2, CHR 0x80, CHR 0x88],
      [CHR 0xE2, CHR 0x80, CHR 0x89], [CHR 0xE2, CHR 0x80, CHR 0x8A],
      [CHR 0xE2, CHR 0x80, CHR 0xA8], [CHR 0xE2, CHR 0x80, CHR 0xA9], [CHR 0xE2, CHR 0x80, CHR 0xAF],
      [CHR 0xE2, CHR 0x81, CHR 0x9F], [CHR 0xE3, CHR 0x80, CHR 0x80]]"

function TrimLeftSpace :: "string \<Rightarrow> string" where
  "TrimLeftSpace s =
     (case find (HasPrefix s) space_runes of
        None \<Rightarrow> s
      | Some w \<Rightarrow> TrimLeftSpace (drop (length w) s))"
  by pat_completeness auto

function TrimRightSpace :: "string \<Rightarrow> string" where
  "TrimRightSpace s =
     (case find (HasSuffix s) space_runes of
        None \<Rightarrow> s
      | Some w \<Rightarrow> TrimRightSpace (take (length s - length w) s))"
  by pat_completeness auto

lemma space_runes_nonempty: "w \<in> set space_runes \<Longrightarrow> 0 < length w"
  by (auto simp: space_runes_def)

lemma find_space_rune:
  assumes "find P space_runes = Some w"
  shows "P w \<and> 0 < length w"
proof -
  from assms obtain i where "i < length space_runes" "P (space_runes ! i)" "w = space_runes ! i"
    by (auto simp: find_Some_iff)
  then show ?thesis
    using space_runes_nonempty [of w] by (metis nth_mem)
qed

lemma trim_measure:
  "find P space_runes = Some w \<Longrightarrow> (P w \<Longrightarrow> length w \<le> length s) \<Longrightarrow> length s - length w < length s"
  using find_space_rune [of P w] by (cases w) auto

termination TrimLeftSpace
  by (relation "measure length") (auto intro!: trim_measure simp: HasPrefix_def)

termination TrimRightSpace
  by (relation "measure length") (auto intro!: trim_measure simp: HasSuffix_def)

declare TrimLeftSpace.simps [simp del] TrimRightSpace.simps [simp del]

definition TrimSpace :: "string \<Rightarrow> string" where
  "TrimSpace s = TrimRightSpace (TrimLeftSpace s)"

text \<open>
  \<open>strings.ToLower\<close> maps the bytes \<open>A\<close> to \<open>Z\<close> of an ASCII string to \<open>a\<close> to \<open>z\<close>. A string
  with a byte of 0x80 or more goes through \<open>unicode.ToLower\<close>, rune by rune, on the case
  tables of the Go release: that mapping is the parameter \<open>U\<close>.
\<close>

definition lowerASCII :: "char \<Rightarrow> char" where
  "lowerASCII c = (if CHR ''A'' \<le> c \<and> c \<le> CHR ''Z'' then char_of (of_char c + (32 :: nat)) else c)"

definition ToLower :: "(string \<Rightarrow> string) \<Rightarrow> string \<Rightarrow> string" where
  "ToLower U s = (if list_all (\<lambda>c. (of_char c :: nat) < 0x80) s then map lowerASCII s else U s)"

subsection \<open>Package bufio\<close>

text \<open>
  A \<open>bufio.Scanner\<close> on the default split function \<open>ScanLines\<close>: each token is the text up
  to the next line feed, less one trailing carriage return; a last line without a line
  feed is a token when it is not empty. A line of \<open>MaxScanTokenSize\<close> bytes or more does not
  fit the buffer: \<open>Scan\<close> then returns false with \<open>ErrTooLong\<close> kept in the scanner, and the
  \<open>for scanner.Scan()\<close> loop ends there. \<open>scanLines\<close> is the sequence of values that
  \<open>scanner.Text()\<close> takes in that loop.
\<close>

definition MaxScanTokenSize :: nat where
  "MaxScanTokenSize = 64 * 1024"

definition dropCR :: "string \<Rightarrow> string" where
  "dropCR data = (if data \<noteq> [] \<and> last data = CHR 0x0D then butlast data else data)"

function scanLines :: "string \<Rightarrow> string list" where
  "scanLines data =
     (if data = [] then []
      else let raw = takeWhile (\<lambda>c. c \<noteq> CHR 0x0A) data in
        if MaxScanTokenSize \<le> length raw then []
        else dropCR raw # scanLines (drop (Suc (length raw)) data))"
  by pat_completeness auto

termination scanLines
  by (relation "measure length") auto

declare scanLines.simps [simp del]

subsection \<open>Package redis\<close>

text \<open>
  What \<open>conn.Do("INFO", "ALL")\<close> can hand back, and \<open>redis.Bytes\<close> on it: a bulk or simple
  string is the text, a nil reply is \<open>ErrNil\<close>, an error reply is returned as the error, and
  any other reply is an error of its type.
\<close>

datatype reply = BulkReply string | StatusReply string | NilReply | ErrorReply string | OtherReply

fun Bytes :: "reply \<Rightarrow> error + string" where
  "Bytes (BulkReply b) = Inr b"
| "Bytes (StatusReply s) = Inr s"
| "Bytes NilReply = Inl ErrNil"
| "Bytes (ErrorReply e) = Inl (ReplyError e)"
| "Bytes OtherReply = Inl UnexpectedType"

section \<open>main.go\<close>

text \<open>
  \<open>parseKVLine\<close>: the loop over the comma-separated parts of the value, appending one
  record for each part that splits in two at its first equals sign.
\<close>

fun parseKVLine_loop :: "string \<Rightarrow> string \<Rightarrow> Metrics \<Rightarrow> string list \<Rightarrow> Metrics" where
  "parseKVLine_loop section prefix ms [] = ms"
| "parseKVLine_loop section prefix ms (pair # parts) =
     (let tupl = SplitN pair (CHR ''='') 2 in
      if length tupl \<noteq> 2 then parseKVLine_loop section prefix ms parts
      else parseKVLine_loop section prefix
             (ms @ [\<lparr>Section = section, Prefix = prefix, Key = tupl ! 0, Val = tupl ! 1\<rparr>]) parts)"

definition parseKVLine :: "string \<Rightarrow> string \<Rightarrow> string \<Rightarrow> Metrics" where
  "parseKVLine section prefix v = parseKVLine_loop section prefix [] (Split v (CHR '',''))"

text \<open>
  \<open>parseLine\<close> returns the slice together with the error, as the Go function does: the
  error is \<open>None\<close> for Go's \<open>nil\<close>.
\<close>

definition parseLine :: "string \<Rightarrow> string \<Rightarrow> Metrics \<times> error option" where
  "parseLine section line =
     (if HasPrefix line ''#'' then ([], None)
      else let parts = SplitN line (CHR '':'') 2 in
        if length parts \<noteq> 2 then ([], Some (ExpectedTwoParts (length parts)))
        else let k = parts ! 0; v = parts ! 1 in
          if HasPrefix k ''cmdstat_'' \<or> HasPrefix k ''db''
          then ([] @ parseKVLine section k v, None)
          else ([] @ [\<lparr>Section = section, Prefix = [], Key = k, Val = v\<rparr>], None))"

text \<open>
  The \<open>for scanner.Scan()\<close> loop of \<open>fetchMetrics\<close>, on the lines the scanner yields, with
  the two variables it updates: the section \<open>s\<close> and the slice \<open>ms\<close>. The error of
  \<open>parseLine\<close> is dropped, as \<open>mms, _ := parseLine(s, line)\<close> does.
\<close>

fun scan_loop :: "(string \<Rightarrow> string) \<Rightarrow> string \<Rightarrow> Metrics \<Rightarrow> string list \<Rightarrow> Metrics" where
  "scan_loop U s ms [] = ms"
| "scan_loop U s ms (line # rest) =
     (if length line = 0 then scan_loop U s ms rest
      else if HasPrefix line ''#''
        then scan_loop U (ToLower U (TrimSpace (TrimPrefix line ''#''))) ms rest
      else scan_loop U s (ms @ fst (parseLine s line)) rest)"

text \<open>
  \<open>fetchMetrics\<close>, given what \<open>conn.Do\<close> returned (its error, or its reply). The result of
  \<open>scanner.Err()\<close> is never read, so the text path always returns \<open>nil\<close>.
\<close>

definition fetchMetrics :: "(string \<Rightarrow> string) \<Rightarrow> error + reply \<Rightarrow> Metrics \<times> error option" where
  "fetchMetrics U conn =
     (case conn of
        Inl err \<Rightarrow> ([], Some err)
      | Inr rep \<Rightarrow>
          (case Bytes rep of
             Inl err \<Rightarrow> ([], Some err)
           | Inr blob \<Rightarrow> (scan_loop U '''' [] (scanLines blob), None)))"

section \<open>Notions used to state the properties\<close>

text \<open>
  The test of \<open>parseLine\<close> that sends a key to the expander, the line feed and the carriage
  return.
\<close>

abbreviation expandable :: "string \<Rightarrow> bool" where
  "expandable k \<equiv> HasPrefix k ''cmdstat_'' \<or> HasPrefix k ''db''"

abbreviation LF :: char where "LF \<equiv> CHR 0x0A"
abbreviation CR :: char where "CR \<equiv> CHR 0x0D"

text \<open>
  \<open>strings.Join\<close> with a one-byte separator, to write down a value made of given pairs.
\<close>

fun Join :: "string list \<Rightarrow> char \<Rightarrow> string" where
  "Join [] sep = []"
| "Join [x] sep = x"
| "Join (x # y # ys) sep = x @ sep # Join (y # ys) sep"

text \<open>
  The record that \<open>parseKVLine\<close> appends for a part with an equals sign: the text before the
  first equals sign is the key, the text after it the value.
\<close>

definition record_of :: "string \<Rightarrow> string \<Rightarrow> string \<Rightarrow> Metric" where
  "record_of section prefix pair =
     \<lparr>Section = section, Prefix = prefix,
      Key = takeWhile (\<lambda>c. c \<noteq> CHR ''='') pair,
      Val = tl (dropWhile (\<lambda>c. c \<noteq> CHR ''='') pair)\<rparr>"

text \<open>
  The section a line belongs to, in the words of the specification: given the lines that
  come before it, take the most recent one that begins with \<open>#\<close>, strip that character,
  trim the rest and put it in lower case; with no such line the section is empty.
\<close>

definition spec_section :: "(string \<Rightarrow> string) \<Rightarrow> string list \<Rightarrow> string" where
  "spec_section U before =
     (case find (\<lambda>l. HasPrefix l ''#'') (rev before) of
        None \<Rightarrow> []
      | Some h \<Rightarrow> ToLower U (TrimSpace (tl h)))"

section \<open>Splitting at a separator\<close>

lemma SplitN_2:
  "SplitN s sep 2 =
     (if sep \<in> set s then [takeWhile (\<lambda>c. c \<noteq> sep) s, tl (dropWhile (\<lambda>c. c \<noteq> sep) s)] else [s])"
  by (simp add: numeral_2_eq_2)

lemma takeWhile_first: "sep \<notin> set k \<Longrightarrow> takeWhile (\<lambda>c. c \<noteq> sep) (k @ sep # v) = k"
  by (induction k) auto

lemma dropWhile_first: "sep \<notin> set k \<Longrightarrow> dropWhile (\<lambda>c. c \<noteq> sep) (k @ sep # v) = sep # v"
  by (induction k) auto

lemma first_sep_decomp:
  "sep \<in> set s \<Longrightarrow> takeWhile (\<lambda>c. c \<noteq> sep) s @ sep # tl (dropWhile (\<lambda>c. c \<noteq> sep) s) = s"
  by (induction s) auto

section \<open>The field parser\<close>

lemma HasPrefix_append: "HasPrefix k p \<Longrightarrow> HasPrefix (k @ x) p"
  by (auto simp: HasPrefix_def)

lemma HasPrefix_hash: "HasPrefix s ''#'' \<longleftrightarrow> (\<exists>r. s = CHR ''#'' # r)"
  by (cases s) (auto simp: HasPrefix_def)

lemma HasPrefix_Cons: "HasPrefix (c # s) (d # p) \<longleftrightarrow> c = d \<and> HasPrefix s p"
  by (auto simp: HasPrefix_def)

lemma HasPrefix_Nil: "HasPrefix [] (d # p) = False" "HasPrefix s [] = True"
  by (auto simp: HasPrefix_def)

lemma expandable_not_hash: "expandable k \<Longrightarrow> \<not> HasPrefix (k @ x) ''#''"
  by (cases k) (auto simp: HasPrefix_Cons HasPrefix_Nil)

lemma expandable_nonempty: "expandable k \<Longrightarrow> k \<noteq> []"
  by (auto simp: HasPrefix_Nil)

lemma parseLine_eq:
  "parseLine section line =
     (if HasPrefix line ''#'' then ([], None)
      else if CHR '':'' \<notin> set line then ([], Some (ExpectedTwoParts 1))
      else if expandable (takeWhile (\<lambda>c. c \<noteq> CHR '':'') line)
        then (parseKVLine section (takeWhile (\<lambda>c. c \<noteq> CHR '':'') line)
                (tl (dropWhile (\<lambda>c. c \<noteq> CHR '':'') line)), None)
      else ([\<lparr>Section = section, Prefix = [], Key = takeWhile (\<lambda>c. c \<noteq> CHR '':'') line,
               Val = tl (dropWhile (\<lambda>c. c \<noteq> CHR '':'') line)\<rparr>], None))"
  by (simp add: parseLine_def SplitN_2 Let_def)

lemma HasPrefix_key_hash:
  "CHR '':'' \<notin> set k \<Longrightarrow> HasPrefix (k @ CHR '':'' # v) ''#'' \<longleftrightarrow> HasPrefix k ''#''"
  by (cases k) (auto simp: HasPrefix_Cons HasPrefix_Nil)

lemma parseLine_kv:
  "CHR '':'' \<notin> set k \<Longrightarrow>
   parseLine section (k @ CHR '':'' # v) =
     (if HasPrefix k ''#'' then ([], None)
      else if expandable k then (parseKVLine section k v, None)
      else ([\<lparr>Section = section, Prefix = [], Key = k, Val = v\<rparr>], None))"
  by (simp add: parseLine_eq HasPrefix_key_hash takeWhile_first dropWhile_first)

section \<open>The sub-format expander\<close>

lemma Split_no_sep: "sep \<notin> set s \<Longrightarrow> Split s sep = [s]"
  by (simp add: Split.simps)

lemma Split_first: "sep \<notin> set a \<Longrightarrow> Split (a @ sep # b) sep = a # Split b sep"
  by (subst Split.simps) (simp add: takeWhile_first dropWhile_first)

lemma Split_nonempty: "Split s sep \<noteq> []"
  by (subst Split.simps) simp

lemma Split_Join:
  "ps \<noteq> [] \<Longrightarrow> \<forall>p \<in> set ps. sep \<notin> set p \<Longrightarrow> Split (Join ps sep) sep = ps"
  by (induction ps sep rule: Join.induct) (simp_all add: Split_no_sep Split_first)

lemma Join_Split: "Join (Split s sep) sep = s"
proof (induction s sep rule: Split.induct)
  case (1 s sep)
  show ?case
  proof (cases "sep \<in> set s")
    case True
    obtain p ps where ps: "Split (tl (dropWhile (\<lambda>c. c \<noteq> sep) s)) sep = p # ps"
      using Split_nonempty by (metis list.exhaust)
    with True 1 have "Join (p # ps) sep = tl (dropWhile (\<lambda>c. c \<noteq> sep) s)"
      by simp
    with True ps show ?thesis
      by (subst Split.simps) (simp add: first_sep_decomp)
  next
    case False
    then show ?thesis by (simp add: Split_no_sep)
  qed
qed

lemma parseKVLine_loop_eq:
  "parseKVLine_loop section prefix ms parts =
     ms @ map (record_of section prefix) (filter (\<lambda>pair. CHR ''='' \<in> set pair) parts)"
  by (induction parts arbitrary: ms) (simp_all add: SplitN_2 record_of_def)

lemma parseKVLine_eq:
  "parseKVLine section prefix v =
     map (record_of section prefix) (filter (\<lambda>pair. CHR ''='' \<in> set pair) (Split v (CHR '','')))"
  by (simp add: parseKVLine_def parseKVLine_loop_eq)

lemma record_of_pair:
  "CHR ''='' \<notin> set n \<Longrightarrow>
     record_of section prefix (n @ CHR ''='' # x) = \<lparr>Section = section, Prefix = prefix, Key = n, Val = x\<rparr>"
  by (simp add: record_of_def takeWhile_first dropWhile_first)

lemma parseKVLine_pairs:
  assumes "\<forall>(n, x) \<in> set pairs. CHR '','' \<notin> set n \<and> CHR ''='' \<notin> set n \<and> CHR '','' \<notin> set x"
  shows "parseKVLine section prefix (Join (map (\<lambda>(n, x). n @ CHR ''='' # x) pairs) (CHR '','')) =
           map (\<lambda>(n, x). \<lparr>Section = section, Prefix = prefix, Key = n, Val = x\<rparr>) pairs"
proof (cases "pairs = []")
  case True
  then show ?thesis by (simp add: parseKVLine_eq Split_no_sep)
next
  case False
  let ?ps = "map (\<lambda>(n, x). n @ CHR ''='' # x) pairs"
  from assms have "\<forall>p \<in> set ?ps. CHR '','' \<notin> set p" by auto
  with False have "Split (Join ?ps (CHR '','')) (CHR '','') = ?ps"
    by (simp add: Split_Join)
  moreover have "filter (\<lambda>pair. CHR ''='' \<in> set pair) ?ps = ?ps"
    by (auto simp: filter_id_conv)
  moreover have "map (record_of section prefix) ?ps =
      map (\<lambda>(n, x). \<lparr>Section = section, Prefix = prefix, Key = n, Val = x\<rparr>) pairs"
    using assms by (auto simp: record_of_pair)
  ultimately show ?thesis by (simp add: parseKVLine_eq)
qed

lemma first_sep_obtain:
  assumes "sep \<in> set s"
  obtains k v where "s = k @ sep # v" and "sep \<notin> set k"
    and "tl (dropWhile (\<lambda>c. c \<noteq> sep) s) = v"
proof
  show "s = takeWhile (\<lambda>c. c \<noteq> sep) s @ sep # tl (dropWhile (\<lambda>c. c \<noteq> sep) s)"
    using assms by (simp add: first_sep_decomp)
  show "sep \<notin> set (takeWhile (\<lambda>c. c \<noteq> sep) s)"
    by (auto dest: set_takeWhileD)
  show "tl (dropWhile (\<lambda>c. c \<noteq> sep) s) = tl (dropWhile (\<lambda>c. c \<noteq> sep) s)" ..
qed

lemma Split_append:
  "Split (a @ sep # b) sep = Split a sep @ Split b sep"
proof (induction a sep rule: Split.induct)
  case (1 s sep)
  show ?case
  proof (cases "sep \<in> set s")
    case True
    then obtain k v where s: "s = k @ sep # v" "sep \<notin> set k"
      and v: "tl (dropWhile (\<lambda>c. c \<noteq> sep) s) = v"
      by (rule first_sep_obtain)
    from 1 [OF True] v have "Split (v @ sep # b) sep = Split v sep @ Split b sep"
      by simp
    with s show ?thesis
      by (simp add: Split_first)
  next
    case False
    then show ?thesis by (simp add: Split_no_sep Split_first)
  qed
qed

lemma parseKVLine_append:
  "parseKVLine section prefix (a @ CHR '','' # b) =
     parseKVLine section prefix a @ parseKVLine section prefix b"
  by (simp add: parseKVLine_eq Split_append)

lemma Split_subset: "p \<in> set (Split s sep) \<Longrightarrow> set p \<subseteq> set s"
proof (induction s sep arbitrary: p rule: Split.induct)
  case (1 s sep)
  show ?case
  proof (cases "sep \<in> set s")
    case True
    then obtain k v where s: "s = k @ sep # v" "sep \<notin> set k"
      and v: "tl (dropWhile (\<lambda>c. c \<noteq> sep) s) = v"
      by (rule first_sep_obtain)
    from "1.prems" s have "p = k \<or> p \<in> set (Split v sep)"
      by (simp add: Split_first)
    then show ?thesis
    proof
      assume "p = k"
      with s show ?thesis by auto
    next
      assume "p \<in> set (Split v sep)"
      with "1.IH" [OF True] v have "set p \<subseteq> set v" by simp
      with s show ?thesis by auto
    qed
  next
    case False
    with "1.prems" show ?thesis by (simp add: Split_no_sep)
  qed
qed

lemma parseKVLine_no_eq:
  assumes "CHR ''='' \<notin> set v"
  shows "parseKVLine section prefix v = []"
proof -
  have "filter (\<lambda>pair. CHR ''='' \<in> set pair) (Split v (CHR '','')) = []"
    using assms Split_subset by (fastforce simp: filter_empty_conv)
  then show ?thesis by (simp add: parseKVLine_eq)
qed

section \<open>The lines of a text and the scanner loop\<close>

lemma scanLines_Nil: "scanLines [] = []"
  by (simp add: scanLines.simps)

lemma scanLines_line:
  "LF \<notin> set l \<Longrightarrow>
   scanLines (l @ LF # rest) = (if MaxScanTokenSize \<le> length l then [] else dropCR l # scanLines rest)"
  by (subst scanLines.simps) (simp add: takeWhile_first Let_def)

lemma scanLines_last:
  assumes "LF \<notin> set l" and "l \<noteq> []"
  shows "scanLines l = (if MaxScanTokenSize \<le> length l then [] else [dropCR l])"
proof -
  from assms(1) have tw: "takeWhile (\<lambda>c. c \<noteq> LF) l = l"
    by (auto simp: takeWhile_eq_all_conv)
  show ?thesis
    by (subst scanLines.simps) (simp add: Let_def scanLines_Nil tw assms(2))
qed

lemma scan_loop_step:
  "\<exists>s' ms'. \<forall>rest. scan_loop U s ms (x # rest) = scan_loop U s' ms' rest"
  by (cases "length x = 0"; cases "HasPrefix x ''#''") auto

lemma boundary_decomp:
  assumes "t \<noteq> []" and "last t = LF"
  obtains l t' where "t = l @ LF # t'" and "LF \<notin> set l" and "t' = [] \<or> last t' = LF"
proof -
  from assms have "LF \<in> set t" by (metis last_in_set)
  then obtain k v where t: "t = k @ LF # v" "LF \<notin> set k"
    by (rule first_sep_obtain)
  with assms(2) have "v = [] \<or> last v = LF" by (cases "v = []") auto
  with t show ?thesis by (rule that)
qed

lemma scan_prefix_cong:
  assumes ab: "\<And>s ms. scan_loop U s ms (scanLines a) = scan_loop U s ms (scanLines b)"
    and "t = [] \<or> last t = LF"
  shows "scan_loop U s ms (scanLines (t @ a)) = scan_loop U s ms (scanLines (t @ b))"
  using assms(2)
proof (induction t arbitrary: s ms rule: length_induct)
  case (1 t)
  show ?case
  proof (cases "t = []")
    case True
    then show ?thesis by (simp add: ab)
  next
    case False
    with "1.prems" have "last t = LF" by simp
    with False obtain l t' where t: "t = l @ LF # t'" "LF \<notin> set l" "t' = [] \<or> last t' = LF"
      by (rule boundary_decomp)
    obtain s' ms' where step: "\<And>rest. scan_loop U s ms (dropCR l # rest) = scan_loop U s' ms' rest"
      using scan_loop_step by blast
    from t have "length t' < length t" by simp
    with "1.IH" t(3)
    have "scan_loop U s' ms' (scanLines (t' @ a)) = scan_loop U s' ms' (scanLines (t' @ b))"
      by blast
    with t step show ?thesis
      by (simp add: scanLines_line)
  qed
qed

lemma scan_insert_line:
  assumes "\<And>s ms rest. scan_loop U s ms (dropCR l # rest) = scan_loop U s ms rest"
    and "LF \<notin> set l" and "length l < MaxScanTokenSize" and "t1 = [] \<or> last t1 = LF"
  shows "scan_loop U s ms (scanLines (t1 @ l @ LF # t2)) = scan_loop U s ms (scanLines (t1 @ t2))"
proof -
  from assms(3) have fits: "\<not> MaxScanTokenSize \<le> length l" by simp
  show ?thesis
    using assms(4)
    by (rule scan_prefix_cong [rotated]) (simp add: scanLines_line assms(1,2) fits del: scan_loop.simps)
qed

lemma last_line_decomp:
  "\<exists>t0 l. t = t0 @ l \<and> (t0 = [] \<or> last t0 = LF) \<and> LF \<notin> set l"
proof (induction t rule: rev_induct)
  case Nil
  then show ?case by simp
next
  case (snoc c t)
  then obtain t0 l where t: "t = t0 @ l" "t0 = [] \<or> last t0 = LF" "LF \<notin> set l"
    by blast
  show ?case
  proof (cases "c = LF")
    case True
    then have "t @ [c] = (t @ [c]) @ [] \<and> ((t @ [c]) = [] \<or> last (t @ [c]) = LF) \<and> LF \<notin> set []"
      by simp
    then show ?thesis by blast
  next
    case False
    with t have "t @ [c] = t0 @ (l @ [c]) \<and> (t0 = [] \<or> last t0 = LF) \<and> LF \<notin> set (l @ [c])"
      by simp
    then show ?thesis by blast
  qed
qed

lemma scan_blank_lines:
  assumes "\<forall>b \<in> set bs. b = [LF] \<or> b = [CR, LF]"
  shows "scan_loop U s ms (scanLines (concat bs @ t2)) = scan_loop U s ms (scanLines t2)"
  using assms
proof (induction bs)
  case Nil
  then show ?case by simp
next
  case (Cons b bs)
  then have b: "b = [] @ LF # [] \<or> b = [CR] @ LF # []" by simp
  from Cons have IH: "scan_loop U s ms (scanLines (concat bs @ t2)) = scan_loop U s ms (scanLines t2)"
    by simp
  from b show ?case
  proof
    assume "b = [] @ LF # []"
    then have "scanLines (concat (b # bs) @ t2) = [] # scanLines (concat bs @ t2)"
      using scanLines_line [of "[]" "concat bs @ t2"] by (simp add: MaxScanTokenSize_def dropCR_def)
    with IH show ?thesis by simp
  next
    assume "b = [CR] @ LF # []"
    then have "scanLines (concat (b # bs) @ t2) = [] # scanLines (concat bs @ t2)"
      using scanLines_line [of "[CR]" "concat bs @ t2"] by (simp add: MaxScanTokenSize_def dropCR_def)
    with IH show ?thesis by simp
  qed
qed

lemma scan_trailing_blank_lines:
  assumes "\<forall>b \<in> set bs. b = [LF] \<or> b = [CR, LF]"
  shows "scan_loop U s ms (scanLines (t @ LF # concat bs)) = scan_loop U s ms (scanLines t)"
proof -
  obtain t0 l where t: "t = t0 @ l" "t0 = [] \<or> last t0 = LF" "LF \<notin> set l"
    using last_line_decomp by blast
  have blanks: "scan_loop U s' ms' (scanLines (concat bs)) = ms'" for s' ms'
    using scan_blank_lines [OF assms, of U s' ms' "[]"] by (simp add: scanLines_Nil)
  have "scan_loop U s' ms' (scanLines (l @ LF # concat bs)) = scan_loop U s' ms' (scanLines l)" for s' ms'
  proof (cases "l = []")
    case True
    have "scanLines (LF # concat bs) = [] # scanLines (concat bs)"
      using scanLines_line [of "[]" "concat bs"] by (simp add: MaxScanTokenSize_def dropCR_def)
    with True blanks show ?thesis by (simp add: scanLines_Nil)
  next
    case False
    obtain s'' ms'' where step: "\<And>rest. scan_loop U s' ms' (dropCR l # rest) = scan_loop U s'' ms'' rest"
      using scan_loop_step by blast
    from step [of "[]"] step [of "scanLines (concat bs)"] blanks [of s'' ms'']
    have "scan_loop U s' ms' (dropCR l # scanLines (concat bs)) = scan_loop U s' ms' [dropCR l]"
      by simp
    with False t(3) show ?thesis
      by (simp add: scanLines_line scanLines_last)
  qed
  then have "scan_loop U s ms (scanLines (t0 @ l @ LF # concat bs)) = scan_loop U s ms (scanLines (t0 @ l))"
    using t(2) by (rule scan_prefix_cong)
  with t(1) show ?thesis by simp
qed

section \<open>Sections and the origin of a record\<close>

lemma spec_section_snoc:
  "spec_section U (pre @ [l]) =
     (if HasPrefix l ''#'' then ToLower U (TrimSpace (tl l)) else spec_section U pre)"
  by (simp add: spec_section_def)

lemma TrimPrefix_hash: "HasPrefix l ''#'' \<Longrightarrow> TrimPrefix l ''#'' = tl l"
  by (cases l) (simp_all add: TrimPrefix_def)

lemma parseLine_blank: "fst (parseLine s []) = []"
  by (simp add: parseLine_eq)

lemma parseLine_header: "HasPrefix l ''#'' \<Longrightarrow> fst (parseLine s l) = []"
  by (simp add: parseLine_eq)

lemma scan_loop_spec_step:
  "scan_loop U (spec_section U pre) ms (l # ls) =
     scan_loop U (spec_section U (pre @ [l])) (ms @ fst (parseLine (spec_section U pre) l)) ls"
  by (simp add: spec_section_snoc TrimPrefix_hash parseLine_blank parseLine_header HasPrefix_Nil)

lemma upt_0_Suc: "[0..<Suc n] = 0 # map Suc [0..<n]"
  by (simp add: upt_conv_Cons map_Suc_upt del: upt_Suc)

lemma scan_loop_sections:
  "scan_loop U (spec_section U pre) ms ls =
     ms @ concat (map (\<lambda>i. fst (parseLine (spec_section U (pre @ take i ls)) (ls ! i))) [0..<length ls])"
proof (induction ls arbitrary: pre ms)
  case Nil
  then show ?case by simp
next
  case (Cons l ls)
  have "scan_loop U (spec_section U pre) ms (l # ls) =
      scan_loop U (spec_section U (pre @ [l])) (ms @ fst (parseLine (spec_section U pre) l)) ls"
    by (rule scan_loop_spec_step)
  also have "\<dots> = (ms @ fst (parseLine (spec_section U pre) l)) @
      concat (map (\<lambda>i. fst (parseLine (spec_section U ((pre @ [l]) @ take i ls)) (ls ! i))) [0..<length ls])"
    by (rule Cons.IH)
  also have "\<dots> = ms @ concat (map (\<lambda>i. fst (parseLine (spec_section U (pre @ take i (l # ls))) ((l # ls) ! i)))
      [0..<length (l # ls)])"
    by (simp add: upt_0_Suc comp_def del: upt_Suc)
  finally show ?case .
qed

lemma parseKVLine_fields:
  "m \<in> set (parseKVLine s p v) \<Longrightarrow> Section m = s \<and> Prefix m = p"
  by (auto simp: parseKVLine_eq record_of_def)

lemma parseLine_section: "m \<in> set (fst (parseLine s line)) \<Longrightarrow> Section m = s"
  by (auto simp: parseLine_eq dest: parseKVLine_fields split: if_splits)

lemma parseLine_origin:
  assumes "m \<in> set (fst (parseLine s line))"
  obtains k v where "line = k @ CHR '':'' # v" and "CHR '':'' \<notin> set k"
    and "expandable k \<Longrightarrow> m \<in> set (parseKVLine s k v)"
    and "\<not> expandable k \<Longrightarrow> m = \<lparr>Section = s, Prefix = [], Key = k, Val = v\<rparr>"
proof -
  from assms have colon: "CHR '':'' \<in> set line"
    by (auto simp: parseLine_eq split: if_splits)
  then obtain k v where line: "line = k @ CHR '':'' # v" "CHR '':'' \<notin> set k"
    by (rule first_sep_obtain)
  with assms have "expandable k \<Longrightarrow> m \<in> set (parseKVLine s k v)"
    and "\<not> expandable k \<Longrightarrow> m = \<lparr>Section = s, Prefix = [], Key = k, Val = v\<rparr>"
    by (auto simp: parseLine_kv split: if_splits)
  with line show ?thesis by (rule that)
qed

lemma scan_loop_origin:
  "m \<in> set (scan_loop U s ms ls) \<Longrightarrow>
     m \<in> set ms \<or> (\<exists>l \<in> set ls. \<exists>s'. m \<in> set (fst (parseLine s' l)))"
proof (induction ls arbitrary: s ms)
  case Nil
  then show ?case by simp
next
  case (Cons l ls)
  obtain s' where step: "scan_loop U s ms (l # ls) = scan_loop U s' (ms @ fst (parseLine s l)) ls"
    by (cases "length l = 0"; cases "HasPrefix l ''#''") (auto simp: parseLine_blank parseLine_header)
  with Cons.prems have "m \<in> set (scan_loop U s' (ms @ fst (parseLine s l)) ls)" by simp
  from Cons.IH [OF this] show ?case by auto
qed

lemma dropCR_cases: "dropCR l = l \<or> (l \<noteq> [] \<and> dropCR l = butlast l)"
  by (simp add: dropCR_def)

lemma scan_loop_no_colon:
  assumes "CHR '':'' \<notin> set line" and "\<not> HasPrefix line ''#''"
  shows "scan_loop U s ms (line # rest) = scan_loop U s ms rest"
  using assms by (simp add: parseLine_eq)

lemma dropCR_no_colon:
  assumes "CHR '':'' \<notin> set line" and "\<not> HasPrefix line ''#''"
  shows "CHR '':'' \<notin> set (dropCR line) \<and> \<not> HasPrefix (dropCR line) ''#''"
proof -
  from assms(1) have "CHR '':'' \<notin> set (butlast line)"
    by (auto dest: in_set_butlastD)
  moreover from assms(2) have "\<not> HasPrefix (butlast line) ''#''"
    by (cases line) (auto simp: HasPrefix_Cons HasPrefix_Nil split: if_splits)
  ultimately show ?thesis
    using assms dropCR_cases [of line] by auto
qed

lemma parseKVLine_verbatim:
  assumes "m \<in> set (parseKVLine s p v)"
  shows "Key m @ CHR ''='' # Val m \<in> set (Split v (CHR '',''))"
proof -
  from assms obtain pair where pair: "pair \<in> set (Split v (CHR '',''))" "CHR ''='' \<in> set pair"
    and m: "m = record_of s p pair"
    by (auto simp: parseKVLine_eq)
  from pair(2) have "Key (record_of s p pair) @ CHR ''='' # Val (record_of s p pair) = pair"
    by (simp add: record_of_def first_sep_decomp)
  with pair(1) m show ?thesis by simp
qed

lemma concat_map_filter:
  assumes "\<And>x. x \<in> set xs \<Longrightarrow> \<not> P x \<Longrightarrow> f x = []"
  shows "concat (map f (filter P xs)) = concat (map f xs)"
  using assms by (induction xs) auto

lemma parseLine_error_iff:
  "snd (parseLine s line) \<noteq> None \<longleftrightarrow> CHR '':'' \<notin> set line \<and> \<not> HasPrefix line ''#''"
  by (simp add: parseLine_eq)

lemma parseLine_error_no_records:
  "snd (parseLine s line) \<noteq> None \<Longrightarrow> fst (parseLine s line) = []"
  by (simp add: parseLine_eq split: if_splits)

section \<open>The properties\<close>

subsection \<open>Plain lines\<close>

text \<open>
  C1, with the guard of \<open>parseLine\<close> on comment lines added: for every line that has a
  colon, does not begin with \<open>#\<close>, and whose key \<open>k\<close> (the text before the first colon) starts
  neither with \<open>cmdstat_\<close> nor with \<open>db\<close>, \<open>parseLine\<close> returns exactly one record and no
  error; the record has the given section, an empty prefix, the key \<open>k\<close> and as value the
  whole remainder \<open>v\<close> after the first colon, colons included.
\<close>

theorem C1_plain_line:
  assumes "CHR '':'' \<notin> set k" and "\<not> HasPrefix k ''#''"
    and "\<not> HasPrefix k ''cmdstat_''" and "\<not> HasPrefix k ''db''"
  shows "parseLine section (k @ CHR '':'' # v) =
           ([\<lparr>Section = section, Prefix = [], Key = k, Val = v\<rparr>], None)"
  using assms by (simp add: parseLine_kv)

text \<open>The statement at a concrete input, the line \<open>master_host:10.0.0.1:6379\<close>.\<close>

theorem C1_plain_line_witness:
  "CHR '':'' \<notin> set ''master_host'' \<and> \<not> HasPrefix ''master_host'' ''#'' \<and>
   \<not> HasPrefix ''master_host'' ''cmdstat_'' \<and> \<not> HasPrefix ''master_host'' ''db'' \<and>
   parseLine ''replication'' ''master_host:10.0.0.1:6379'' =
     ([\<lparr>Section = ''replication'', Prefix = [], Key = ''master_host'', Val = ''10.0.0.1:6379''\<rparr>], None)"
  using C1_plain_line [of "''master_host''" "''replication''" "''10.0.0.1:6379''"]
  by (simp add: HasPrefix_def)

text \<open>
  A line with a colon and a key that starts neither with \<open>cmdstat_\<close> nor with \<open>db\<close>, for
  which \<open>parseLine\<close> returns no record: it begins with \<open>#\<close>.
\<close>

theorem C1_hash_line_counterexample:
  "''#a:b'' = ''#a'' @ CHR '':'' # ''b'' \<and> CHR '':'' \<notin> set ''#a'' \<and>
   \<not> HasPrefix ''#a'' ''cmdstat_'' \<and> \<not> HasPrefix ''#a'' ''db'' \<and>
   parseLine ''server'' ''#a:b'' = ([], None) \<and>
   parseLine ''server'' ''#a:b'' \<noteq> ([\<lparr>Section = ''server'', Prefix = [], Key = ''#a'', Val = ''b''\<rparr>], None)"
  by (simp add: parseLine_def HasPrefix_def)

subsection \<open>Lines that do not parse\<close>

text \<open>
  C2, for the lines without a colon: when such a line does not begin with \<open>#\<close>,
  \<open>parseLine\<close> returns the error and no record, the scanner loop goes on to the next line
  with its section and its records unchanged, and, the line being shorter than the token
  limit of the scanner, the text with that line removed gives the same result. A line with
  one colon or more is no failure: \<open>parseLine\<close> returns no error for it.
\<close>

theorem C2_no_colon_line:
  assumes "CHR '':'' \<notin> set line" and "\<not> HasPrefix line ''#''"
  shows "parseLine section line = ([], Some (ExpectedTwoParts 1)) \<and>
         scan_loop U s ms (line # rest) = scan_loop U s ms rest \<and>
         (LF \<notin> set line \<and> length line < MaxScanTokenSize \<and> (t1 = [] \<or> last t1 = LF) \<longrightarrow>
            fetchMetrics U (Inr (BulkReply (t1 @ line @ LF # t2))) =
            fetchMetrics U (Inr (BulkReply (t1 @ t2)))) \<and>
         (CHR '':'' \<in> set other \<longrightarrow> snd (parseLine section other) = None)"
proof -
  have skip: "scan_loop U s' ms' (dropCR line # rest') = scan_loop U s' ms' rest'" for s' ms' rest'
    using dropCR_no_colon [OF assms] scan_loop_no_colon [of "dropCR line"] by blast
  have "scan_loop U [] [] (scanLines (t1 @ line @ LF # t2)) = scan_loop U [] [] (scanLines (t1 @ t2))"
    if "LF \<notin> set line" "length line < MaxScanTokenSize" "t1 = [] \<or> last t1 = LF"
    using skip that by (rule scan_insert_line)
  moreover have "parseLine section line = ([], Some (ExpectedTwoParts 1))"
    using assms by (simp add: parseLine_eq)
  moreover have "CHR '':'' \<in> set other \<longrightarrow> snd (parseLine section other) = None"
    by (simp add: parseLine_eq)
  ultimately show ?thesis
    using assms by (simp add: fetchMetrics_def scan_loop_no_colon del: scan_loop.simps)
qed

text \<open>The statement at a concrete input, the line \<open>garbage\<close> after a header.\<close>

theorem C2_no_colon_line_witness:
  "CHR '':'' \<notin> set ''garbage'' \<and> \<not> HasPrefix ''garbage'' ''#'' \<and>
   parseLine ''server'' ''garbage'' = ([], Some (ExpectedTwoParts 1)) \<and>
   LF \<notin> set ''garbage'' \<and> length ''garbage'' < MaxScanTokenSize \<and> last (''#Server'' @ [LF]) = LF \<and>
   fetchMetrics (\<lambda>x. x) (Inr (BulkReply ((''#Server'' @ [LF]) @ ''garbage'' @ LF # ''role:master''))) =
   fetchMetrics (\<lambda>x. x) (Inr (BulkReply ((''#Server'' @ [LF]) @ ''role:master''))) \<and>
   CHR '':'' \<in> set ''a:b:c'' \<and> snd (parseLine ''server'' ''a:b:c'') = None"
  using C2_no_colon_line [of "''garbage''" "''server''" "\<lambda>x. x" _ _ _ "''#Server'' @ [LF]"
      "''role:master''" "''a:b:c''"]
  by (simp add: HasPrefix_def MaxScanTokenSize_def)

text \<open>A line with two colons, for which \<open>parseLine\<close> returns a record and no error.\<close>

theorem C2_multi_colon_counterexample:
  "count_list ''a:b:c'' (CHR '':'') = 2 \<and>
   parseLine ''server'' ''a:b:c'' =
     ([\<lparr>Section = ''server'', Prefix = [], Key = ''a'', Val = ''b:c''\<rparr>], None)"
  by code_simp

subsection \<open>Expanded lines\<close>

text \<open>
  C3, with the names and values taken verbatim: for a key \<open>k\<close> that starts with \<open>cmdstat_\<close>
  and a value that joins the pairs \<open>n=x\<close> with commas, right after the colon, \<open>parseLine\<close>
  returns one record per pair, in the order of the pairs, with prefix \<open>k\<close>, key \<open>n\<close> and
  value \<open>x\<close>. For every value the records of the text before a comma come before the
  records of the text after it.
\<close>

theorem C3_expander_pairs:
  assumes "\<forall>(n, x) \<in> set pairs. CHR '','' \<notin> set n \<and> CHR ''='' \<notin> set n \<and> CHR '','' \<notin> set x"
    and "HasPrefix k ''cmdstat_''" and "CHR '':'' \<notin> set k"
  shows "parseLine section (k @ CHR '':'' # Join (map (\<lambda>(n, x). n @ CHR ''='' # x) pairs) (CHR '','')) =
           (map (\<lambda>(n, x). \<lparr>Section = section, Prefix = k, Key = n, Val = x\<rparr>) pairs, None) \<and>
         parseKVLine section k (a @ CHR '','' # b) = parseKVLine section k a @ parseKVLine section k b"
proof -
  from assms(2) have "\<not> HasPrefix k ''#''"
    by (cases k) (auto simp: HasPrefix_Cons HasPrefix_Nil)
  with assms show ?thesis
    by (simp add: parseLine_kv parseKVLine_pairs parseKVLine_append)
qed

text \<open>The statement at a concrete input, the line \<open>cmdstat_X:a=1,b=2\<close>.\<close>

theorem C3_expander_pairs_witness:
  "CHR '','' \<notin> set ''a'' \<and> CHR ''='' \<notin> set ''a'' \<and> CHR '','' \<notin> set ''1'' \<and>
   CHR '','' \<notin> set ''b'' \<and> CHR ''='' \<notin> set ''b'' \<and> CHR '','' \<notin> set ''2'' \<and>
   HasPrefix ''cmdstat_X'' ''cmdstat_'' \<and> CHR '':'' \<notin> set ''cmdstat_X'' \<and>
   parseLine ''commandstats'' ''cmdstat_X:a=1,b=2'' =
     ([\<lparr>Section = ''commandstats'', Prefix = ''cmdstat_X'', Key = ''a'', Val = ''1''\<rparr>,
       \<lparr>Section = ''commandstats'', Prefix = ''cmdstat_X'', Key = ''b'', Val = ''2''\<rparr>], None)"
  using C3_expander_pairs [of "[(''a'', ''1''), (''b'', ''2'')]" "''cmdstat_X''" "''commandstats''"]
  by (simp add: HasPrefix_def)

text \<open>With a space after the colon, the key of the first record begins with that space.\<close>

theorem C3_space_after_colon_counterexample:
  "parseLine ''commandstats'' ''cmdstat_X: a=1,b=2'' =
     ([\<lparr>Section = ''commandstats'', Prefix = ''cmdstat_X'', Key = '' a'', Val = ''1''\<rparr>,
       \<lparr>Section = ''commandstats'', Prefix = ''cmdstat_X'', Key = ''b'', Val = ''2''\<rparr>], None) \<and>
   parseLine ''commandstats'' ''cmdstat_X: a=1,b=2'' \<noteq>
     ([\<lparr>Section = ''commandstats'', Prefix = ''cmdstat_X'', Key = ''a'', Val = ''1''\<rparr>,
       \<lparr>Section = ''commandstats'', Prefix = ''cmdstat_X'', Key = ''b'', Val = ''2''\<rparr>], None)"
  by code_simp

subsection \<open>Parts without an equals sign\<close>

text \<open>
  C4: a part \<open>bad\<close> of the value that has no equals sign adds no record and takes none away,
  wherever it stands: between two commas, first, last, or alone. The line
  \<open>cmdstat_get: calls=3,badpair,usec=5\<close> gives two records and no error.
\<close>

theorem C4_bad_pair_skipped:
  assumes "CHR ''='' \<notin> set bad"
  shows "parseKVLine section prefix (a @ CHR '','' # bad @ CHR '','' # b) =
           parseKVLine section prefix (a @ CHR '','' # b) \<and>
         parseKVLine section prefix (bad @ CHR '','' # b) = parseKVLine section prefix b \<and>
         parseKVLine section prefix (a @ CHR '','' # bad) = parseKVLine section prefix a \<and>
         parseKVLine section prefix bad = [] \<and>
         parseLine section ''cmdstat_get: calls=3,badpair,usec=5'' =
           ([\<lparr>Section = section, Prefix = ''cmdstat_get'', Key = '' calls'', Val = ''3''\<rparr>,
             \<lparr>Section = section, Prefix = ''cmdstat_get'', Key = ''usec'', Val = ''5''\<rparr>], None)"
proof -
  have "parseLine section ''cmdstat_get: calls=3,badpair,usec=5'' =
           ([\<lparr>Section = section, Prefix = ''cmdstat_get'', Key = '' calls'', Val = ''3''\<rparr>,
             \<lparr>Section = section, Prefix = ''cmdstat_get'', Key = ''usec'', Val = ''5''\<rparr>], None)"
    by (simp add: parseLine_eq HasPrefix_def parseKVLine_eq Split.simps record_of_def)
  with assms show ?thesis
    by (simp add: parseKVLine_append parseKVLine_no_eq)
qed

text \<open>The statement at a concrete input, the part \<open>badpair\<close>.\<close>

theorem C4_bad_pair_skipped_witness:
  "CHR ''='' \<notin> set ''badpair'' \<and>
   parseKVLine ''commandstats'' ''cmdstat_get'' (''calls=3'' @ CHR '','' # ''badpair'' @ CHR '','' # ''usec=5'') =
     parseKVLine ''commandstats'' ''cmdstat_get'' (''calls=3'' @ CHR '','' # ''usec=5'') \<and>
   length (fst (parseLine ''commandstats'' ''cmdstat_get: calls=3,badpair,usec=5'')) = 2 \<and>
   snd (parseLine ''commandstats'' ''cmdstat_get: calls=3,badpair,usec=5'') = None"
  using C4_bad_pair_skipped [of "''badpair''" "''commandstats''" "''cmdstat_get''" "''calls=3''" "''usec=5''"]
  by simp

subsection \<open>Section tracking\<close>

text \<open>
  C5: the records of a scan are, for the lines that are neither empty nor headers and in
  their order, the records \<open>parseLine\<close> returns for the line and the section of the
  specification, computed from the lines before it; and every record \<open>parseLine\<close> returns
  carries the section it was given.
\<close>

theorem C5_section_tracking:
  "fst (fetchMetrics U (Inr (BulkReply blob))) =
     concat (map (\<lambda>i. fst (parseLine (spec_section U (take i (scanLines blob))) (scanLines blob ! i)))
       (filter (\<lambda>i. scanLines blob ! i \<noteq> [] \<and> \<not> HasPrefix (scanLines blob ! i) ''#'')
          [0..<length (scanLines blob)])) \<and>
   (\<forall>m \<in> set (fst (parseLine s line)). Section m = s)"
proof -
  let ?ls = "scanLines blob"
  let ?f = "\<lambda>i. fst (parseLine (spec_section U (take i ?ls)) (?ls ! i))"
  have "spec_section U [] = []"
    by (simp add: spec_section_def)
  then have "scan_loop U [] [] ?ls = concat (map ?f [0..<length ?ls])"
    using scan_loop_sections [of U "[]" "[]" ?ls] by simp
  also have "\<dots> = concat (map ?f (filter (\<lambda>i. ?ls ! i \<noteq> [] \<and> \<not> HasPrefix (?ls ! i) ''#'') [0..<length ?ls]))"
    by (rule concat_map_filter [symmetric]) (auto simp: parseLine_blank parseLine_header)
  finally show ?thesis
    by (simp add: fetchMetrics_def parseLine_section)
qed

text \<open>The statement at a concrete input, a text with a line before the first header.\<close>

theorem C5_section_tracking_witness:
  "fst (fetchMetrics (\<lambda>x. x) (Inr (BulkReply (''uptime:5'' @ LF # ''# Server '' @ LF # ''role:master'' @ [LF])))) =
     [\<lparr>Section = [], Prefix = [], Key = ''uptime'', Val = ''5''\<rparr>,
      \<lparr>Section = ''server'', Prefix = [], Key = ''role'', Val = ''master''\<rparr>] \<and>
   spec_section (\<lambda>x. x) [] = [] \<and>
   spec_section (\<lambda>x. x) [''uptime:5'', ''# Server ''] = ''server'' \<and>
   \<lparr>Section = ''server'', Prefix = [], Key = ''role'', Val = ''master''\<rparr>
     \<in> set (fst (parseLine ''server'' ''role:master'')) \<and>
   Section \<lparr>Section = ''server'', Prefix = [], Key = ''role'', Val = ''master''\<rparr> = ''server''"
proof -
  let ?blob = "''uptime:5'' @ LF # ''# Server '' @ LF # ''role:master'' @ [LF]"
  let ?toks = "[''uptime:5'', ''# Server '', ''role:master'']"
  have tokens: "scanLines ?blob = ?toks"
    by (simp add: scanLines.simps MaxScanTokenSize_def dropCR_def)
  have records: "concat (map (\<lambda>i. fst (parseLine (spec_section (\<lambda>x. x) (take i ?toks)) (?toks ! i)))
       (filter (\<lambda>i. ?toks ! i \<noteq> [] \<and> \<not> HasPrefix (?toks ! i) ''#'') [0..<length ?toks])) =
     [\<lparr>Section = [], Prefix = [], Key = ''uptime'', Val = ''5''\<rparr>,
      \<lparr>Section = ''server'', Prefix = [], Key = ''role'', Val = ''master''\<rparr>]"
    by code_simp
  have sections: "spec_section (\<lambda>x. x) [] = [] \<and>
      spec_section (\<lambda>x. x) [''uptime:5'', ''# Server ''] = ''server''"
    by code_simp
  have mem: "\<lparr>Section = ''server'', Prefix = [], Key = ''role'', Val = ''master''\<rparr>
     \<in> set (fst (parseLine ''server'' ''role:master''))"
    by code_simp
  from C5_section_tracking [of "\<lambda>x. x" ?blob "''server''" "''role:master''"] tokens records sections mem
  show ?thesis by simp
qed

subsection \<open>Blank lines\<close>

text \<open>
  C6: blank lines (a line feed, or a carriage return and a line feed) put at the start of
  the text or right after a line feed, and blank lines put after the end of the last line,
  do not change what \<open>fetchMetrics\<close> returns.
\<close>

theorem C6_blank_lines_noop:
  assumes "\<forall>b \<in> set bs. b = [LF] \<or> b = [CR, LF]"
  shows "(t1 = [] \<or> last t1 = LF \<longrightarrow>
            fetchMetrics U (Inr (BulkReply (t1 @ concat bs @ t2))) = fetchMetrics U (Inr (BulkReply (t1 @ t2)))) \<and>
         fetchMetrics U (Inr (BulkReply (t @ LF # concat bs))) = fetchMetrics U (Inr (BulkReply t))"
proof -
  have "scan_loop U [] [] (scanLines (t1 @ concat bs @ t2)) = scan_loop U [] [] (scanLines (t1 @ t2))"
    if "t1 = [] \<or> last t1 = LF"
    using that by (rule scan_prefix_cong [rotated]) (rule scan_blank_lines [OF assms])
  then show ?thesis
    by (simp add: fetchMetrics_def scan_trailing_blank_lines [OF assms])
qed

text \<open>The statement at a concrete input, two blank lines after a header and after the last line.\<close>

theorem C6_blank_lines_noop_witness:
  "set [[LF], [CR, LF]] \<subseteq> {[LF], [CR, LF]} \<and> last (''#Server'' @ [LF]) = LF \<and>
   fetchMetrics (\<lambda>x. x) (Inr (BulkReply ((''#Server'' @ [LF]) @ concat [[LF], [CR, LF]] @ ''role:master''))) =
   fetchMetrics (\<lambda>x. x) (Inr (BulkReply ((''#Server'' @ [LF]) @ ''role:master''))) \<and>
   fetchMetrics (\<lambda>x. x) (Inr (BulkReply (''role:master'' @ LF # concat [[LF], [CR, LF]]))) =
   fetchMetrics (\<lambda>x. x) (Inr (BulkReply ''role:master''))"
  using C6_blank_lines_noop [where bs = "[[LF], [CR, LF]]" and U = "\<lambda>x. x"
      and ?t1.0 = "''#Server'' @ [LF]" and ?t2.0 = "''role:master''" and t = "''role:master''"]
  by simp

subsection \<open>Errors\<close>

text \<open>
  C7: when the reply is a text, \<open>fetchMetrics\<close> returns no error together with the records,
  in order, of the scanned lines for which \<open>parseLine\<close> returns no error, each parsed under
  the section of the lines before it, however many lines fail to parse. A line for which
  \<open>parseLine\<close> returns an error adds no record and the loop goes on with the lines after
  it. An error that \<open>fetchMetrics\<close> returns is the error of \<open>conn.Do\<close> or the error of
  \<open>redis.Bytes\<close> on the reply.
\<close>

theorem C7_only_read_errors_escape:
  "fetchMetrics U (Inr (BulkReply blob)) =
     (concat (map (\<lambda>i. fst (parseLine (spec_section U (take i (scanLines blob))) (scanLines blob ! i)))
        (filter (\<lambda>i. scanLines blob ! i \<noteq> [] \<and> \<not> HasPrefix (scanLines blob ! i) ''#'' \<and>
                   snd (parseLine (spec_section U (take i (scanLines blob))) (scanLines blob ! i)) = None)
           [0..<length (scanLines blob)])),
      None) \<and>
   fetchMetrics U (Inr (StatusReply blob)) = fetchMetrics U (Inr (BulkReply blob)) \<and>
   (snd (parseLine s line) \<noteq> None \<longrightarrow>
      fst (parseLine s line) = [] \<and> scan_loop U s ms (line # rest) = scan_loop U s ms rest) \<and>
   (snd (fetchMetrics U conn) = Some e \<longrightarrow>
      conn = Inl e \<or> (\<exists>rep. conn = Inr rep \<and> Bytes rep = Inl e))"
proof -
  let ?ls = "scanLines blob"
  let ?f = "\<lambda>i. fst (parseLine (spec_section U (take i ?ls)) (?ls ! i))"
  let ?ok = "\<lambda>i. ?ls ! i \<noteq> [] \<and> \<not> HasPrefix (?ls ! i) ''#'' \<and>
                snd (parseLine (spec_section U (take i ?ls)) (?ls ! i)) = None"
  have "spec_section U [] = []"
    by (simp add: spec_section_def)
  then have "scan_loop U [] [] ?ls = concat (map ?f [0..<length ?ls])"
    using scan_loop_sections [of U "[]" "[]" ?ls] by simp
  also have "\<dots> = concat (map ?f (filter ?ok [0..<length ?ls]))"
  proof (rule concat_map_filter [symmetric])
    fix i
    assume "\<not> ?ok i"
    then show "?f i = []"
      using parseLine_blank parseLine_header parseLine_error_no_records by metis
  qed
  finally have records: "scan_loop U [] [] ?ls = concat (map ?f (filter ?ok [0..<length ?ls]))" .
  have skipped: "fst (parseLine s line) = [] \<and> scan_loop U s ms (line # rest) = scan_loop U s ms rest"
    if err: "snd (parseLine s line) \<noteq> None"
  proof -
    from err have "CHR '':'' \<notin> set line" and "\<not> HasPrefix line ''#''"
      using parseLine_error_iff [of s line] by blast+
    then have "scan_loop U s ms (line # rest) = scan_loop U s ms rest"
      by (rule scan_loop_no_colon)
    with parseLine_error_no_records [OF err] show ?thesis ..
  qed
  have escapes: "conn = Inl e \<or> (\<exists>rep. conn = Inr rep \<and> Bytes rep = Inl e)"
    if "snd (fetchMetrics U conn) = Some e"
    using that by (auto simp: fetchMetrics_def split: sum.splits)
  have text_reply: "fetchMetrics U (Inr (BulkReply blob)) = (scan_loop U [] [] ?ls, None)"
    and status: "fetchMetrics U (Inr (StatusReply blob)) = fetchMetrics U (Inr (BulkReply blob))"
    by (simp_all add: fetchMetrics_def)
  from records text_reply status skipped escapes show ?thesis
    by (simp only: simp_thms) blast
qed

text \<open>
  The statement at a concrete input: a text with two lines that do not parse around one that
  does, and a failed \<open>conn.Do\<close>.
\<close>

theorem C7_only_read_errors_escape_witness:
  "snd (parseLine [] ''garbage'') = Some (ExpectedTwoParts 1) \<and>
   fetchMetrics (\<lambda>x. x) (Inr (BulkReply (''garbage'' @ LF # ''role:master'' @ LF # ''also garbage''))) =
     ([\<lparr>Section = [], Prefix = [], Key = ''role'', Val = ''master''\<rparr>], None) \<and>
   scan_loop (\<lambda>x. x) [] [] [''garbage'', ''role:master''] = scan_loop (\<lambda>x. x) [] [] [''role:master''] \<and>
   snd (fetchMetrics (\<lambda>x. x) (Inl (ConnError ''i/o timeout''))) = Some (ConnError ''i/o timeout'')"
proof -
  let ?blob = "''garbage'' @ LF # ''role:master'' @ LF # ''also garbage''"
  let ?toks = "[''garbage'', ''role:master'', ''also garbage'']"
  have tokens: "scanLines ?blob = ?toks"
    by (simp add: scanLines.simps MaxScanTokenSize_def dropCR_def Let_def)
  have records: "concat (map (\<lambda>i. fst (parseLine (spec_section (\<lambda>x. x) (take i ?toks)) (?toks ! i)))
        (filter (\<lambda>i. ?toks ! i \<noteq> [] \<and> \<not> HasPrefix (?toks ! i) ''#'' \<and>
                   snd (parseLine (spec_section (\<lambda>x. x) (take i ?toks)) (?toks ! i)) = None)
           [0..<length ?toks])) =
     [\<lparr>Section = [], Prefix = [], Key = ''role'', Val = ''master''\<rparr>]"
    by code_simp
  have fails: "snd (parseLine [] ''garbage'') = Some (ExpectedTwoParts 1)"
    by code_simp
  have refused: "snd (fetchMetrics (\<lambda>x. x) (Inl (ConnError ''i/o timeout''))) = Some (ConnError ''i/o timeout'')"
    by (simp add: fetchMetrics_def)
  from C7_only_read_errors_escape [of "\<lambda>x. x" ?blob "[]" "''garbage''" "[]" "[''role:master'']"
      "Inl (ConnError ''i/o timeout'')" "ConnError ''i/o timeout''"]
    tokens records fails refused
  show ?thesis by (simp del: scan_loop.simps)
qed

subsection \<open>Prefixes\<close>

text \<open>
  C8: every record of a scan comes from a scanned line \<open>k:v\<close>, \<open>k\<close> the text before the first
  colon. Its prefix is not empty exactly when \<open>k\<close> starts with \<open>cmdstat_\<close> or \<open>db\<close>; then the
  record comes from the expander and its prefix is \<open>k\<close>; otherwise it is the plain record
  of the line, with an empty prefix.
\<close>

theorem C8_prefix_iff_expanded:
  assumes "m \<in> set (fst (fetchMetrics U (Inr rep)))"
  shows "\<exists>blob line s k v. Bytes rep = Inr blob \<and> line \<in> set (scanLines blob) \<and>
           line = k @ CHR '':'' # v \<and> CHR '':'' \<notin> set k \<and>
           (Prefix m \<noteq> [] \<longleftrightarrow> expandable k) \<and>
           (if expandable k then m \<in> set (parseKVLine s k v) \<and> Prefix m = k
            else m = \<lparr>Section = s, Prefix = [], Key = k, Val = v\<rparr>)"
proof -
  from assms obtain blob where blob: "Bytes rep = Inr blob"
    and m: "m \<in> set (scan_loop U [] [] (scanLines blob))"
    by (auto simp: fetchMetrics_def split: sum.splits)
  from scan_loop_origin [OF m] obtain line s where line: "line \<in> set (scanLines blob)"
    and ms: "m \<in> set (fst (parseLine s line))"
    by auto
  from ms obtain k v where kv: "line = k @ CHR '':'' # v" "CHR '':'' \<notin> set k"
    and ex: "expandable k \<Longrightarrow> m \<in> set (parseKVLine s k v)"
    and pl: "\<not> expandable k \<Longrightarrow> m = \<lparr>Section = s, Prefix = [], Key = k, Val = v\<rparr>"
    by (rule parseLine_origin) blast
  have "(Prefix m \<noteq> [] \<longleftrightarrow> expandable k) \<and>
      (if expandable k then m \<in> set (parseKVLine s k v) \<and> Prefix m = k
       else m = \<lparr>Section = s, Prefix = [], Key = k, Val = v\<rparr>)"
  proof (cases "expandable k")
    case True
    from ex [OF True] have "m \<in> set (parseKVLine s k v)" "Prefix m = k"
      by (simp_all add: parseKVLine_fields)
    with True expandable_nonempty [OF True] show ?thesis by simp
  next
    case False
    with pl show ?thesis by simp
  qed
  with blob line kv show ?thesis by blast
qed

text \<open>The statement at a concrete input, the line \<open>cmdstat_get:calls=3\<close>.\<close>

theorem C8_prefix_iff_expanded_witness:
  "\<lparr>Section = [], Prefix = ''cmdstat_get'', Key = ''calls'', Val = ''3''\<rparr>
     \<in> set (fst (fetchMetrics (\<lambda>x. x) (Inr (BulkReply ''cmdstat_get:calls=3'')))) \<and>
   (\<exists>blob line s k v. Bytes (BulkReply ''cmdstat_get:calls=3'') = Inr blob \<and> line \<in> set (scanLines blob) \<and>
      line = k @ CHR '':'' # v \<and> CHR '':'' \<notin> set k \<and>
      (Prefix \<lparr>Section = [], Prefix = ''cmdstat_get'', Key = ''calls'', Val = ''3''\<rparr> \<noteq> [] \<longleftrightarrow> expandable k) \<and>
      (if expandable k
       then \<lparr>Section = [], Prefix = ''cmdstat_get'', Key = ''calls'', Val = ''3''\<rparr> \<in> set (parseKVLine s k v) \<and>
            Prefix \<lparr>Section = [], Prefix = ''cmdstat_get'', Key = ''calls'', Val = ''3''\<rparr> = k
       else \<lparr>Section = [], Prefix = ''cmdstat_get'', Key = ''calls'', Val = ''3''\<rparr> =
            \<lparr>Section = s, Prefix = [], Key = k, Val = v\<rparr>))"
proof -
  have tokens: "scanLines ''cmdstat_get:calls=3'' = [''cmdstat_get:calls=3'']"
    by (simp add: scanLines.simps MaxScanTokenSize_def dropCR_def)
  have "\<lparr>Section = [], Prefix = ''cmdstat_get'', Key = ''calls'', Val = ''3''\<rparr>
     \<in> set (scan_loop (\<lambda>x. x) [] [] [''cmdstat_get:calls=3''])"
    by code_simp
  with tokens have h: "\<lparr>Section = [], Prefix = ''cmdstat_get'', Key = ''calls'', Val = ''3''\<rparr>
     \<in> set (fst (fetchMetrics (\<lambda>x. x) (Inr (BulkReply ''cmdstat_get:calls=3''))))"
    by (simp add: fetchMetrics_def)
  from C8_prefix_iff_expanded [OF h] h show ?thesis by blast
qed

subsection \<open>Whitespace\<close>

text \<open>
  C9: nothing is trimmed from keys and values. A record of a plain line has the text before
  the first colon as key and the text after it as value; a record of an expanded line has
  the key of the line as prefix, and its key, an equals sign and its value make up one of
  the comma-separated parts of the value, which joined again give the value. So
  \<open>key: value\<close> has the value \<open>" value"\<close> and \<open>cmdstat_get: calls=3\<close> the key \<open>" calls"\<close>. The
  text of a section header is trimmed.
\<close>

theorem C9_no_trimming:
  "(m \<in> set (fst (parseLine section line)) \<longrightarrow>
      (\<exists>k v. line = k @ CHR '':'' # v \<and> CHR '':'' \<notin> set k \<and>
         (if expandable k
          then Prefix m = k \<and> Key m @ CHR ''='' # Val m \<in> set (Split v (CHR '','')) \<and>
               Join (Split v (CHR '','')) (CHR '','') = v
          else Prefix m = [] \<and> Key m = k \<and> Val m = v))) \<and>
   parseLine section ''key: value'' =
     ([\<lparr>Section = section, Prefix = [], Key = ''key'', Val = '' value''\<rparr>], None) \<and>
   parseLine section ''cmdstat_get: calls=3'' =
     ([\<lparr>Section = section, Prefix = ''cmdstat_get'', Key = '' calls'', Val = ''3''\<rparr>], None) \<and>
   scan_loop U s ms (''#  Server  '' # rest) = scan_loop U ''server'' ms rest"
proof -
  have general: "\<exists>k v. line = k @ CHR '':'' # v \<and> CHR '':'' \<notin> set k \<and>
         (if expandable k
          then Prefix m = k \<and> Key m @ CHR ''='' # Val m \<in> set (Split v (CHR '','')) \<and>
               Join (Split v (CHR '','')) (CHR '','') = v
          else Prefix m = [] \<and> Key m = k \<and> Val m = v)"
    if m: "m \<in> set (fst (parseLine section line))"
  proof -
    from m obtain k v where kv: "line = k @ CHR '':'' # v" "CHR '':'' \<notin> set k"
      and ex: "expandable k \<Longrightarrow> m \<in> set (parseKVLine section k v)"
      and pl: "\<not> expandable k \<Longrightarrow> m = \<lparr>Section = section, Prefix = [], Key = k, Val = v\<rparr>"
      by (rule parseLine_origin) blast
    have "if expandable k
          then Prefix m = k \<and> Key m @ CHR ''='' # Val m \<in> set (Split v (CHR '','')) \<and>
               Join (Split v (CHR '','')) (CHR '','') = v
          else Prefix m = [] \<and> Key m = k \<and> Val m = v"
    proof (cases "expandable k")
      case True
      from ex [OF True] show ?thesis
        using True by (simp add: parseKVLine_fields parseKVLine_verbatim Join_Split)
    next
      case False
      with pl show ?thesis by simp
    qed
    with kv show ?thesis by blast
  qed
  have plain: "parseLine section ''key: value'' =
     ([\<lparr>Section = section, Prefix = [], Key = ''key'', Val = '' value''\<rparr>], None)"
    by (simp add: parseLine_eq HasPrefix_def)
  have sub: "parseLine section ''cmdstat_get: calls=3'' =
     ([\<lparr>Section = section, Prefix = ''cmdstat_get'', Key = '' calls'', Val = ''3''\<rparr>], None)"
    by (simp add: parseLine_eq HasPrefix_def parseKVLine_eq Split.simps record_of_def)
  have trimmed: "TrimSpace (TrimPrefix ''#  Server  '' ''#'') = ''Server''"
    by code_simp
  have ascii: "list_all (\<lambda>c. (of_char c :: nat) < 0x80) ''Server''"
    by code_simp
  have lower: "map lowerASCII ''Server'' = ''server''"
    by code_simp
  have header: "HasPrefix ''#  Server  '' ''#''"
    by (simp add: HasPrefix_def)
  have lowered: "ToLower U ''Server'' = ''server''"
    unfolding ToLower_def by (simp only: ascii lower if_True)
  have "scan_loop U s ms (''#  Server  '' # rest) = scan_loop U ''server'' ms rest"
    by (simp add: header trimmed lowered)
  with general plain sub show ?thesis by blast
qed

text \<open>The statement at a concrete input, the line \<open>" key :  value "\<close>.\<close>

theorem C9_no_trimming_witness:
  "\<lparr>Section = ''server'', Prefix = [], Key = '' key '', Val = ''  value ''\<rparr>
     \<in> set (fst (parseLine ''server'' '' key :  value '')) \<and>
   (\<exists>k v. '' key :  value '' = k @ CHR '':'' # v \<and> CHR '':'' \<notin> set k \<and>
      (if expandable k
       then Prefix \<lparr>Section = ''server'', Prefix = [], Key = '' key '', Val = ''  value ''\<rparr> = k \<and>
            Key \<lparr>Section = ''server'', Prefix = [], Key = '' key '', Val = ''  value ''\<rparr> @ CHR ''='' #
              Val \<lparr>Section = ''server'', Prefix = [], Key = '' key '', Val = ''  value ''\<rparr>
              \<in> set (Split v (CHR '','')) \<and>
            Join (Split v (CHR '','')) (CHR '','') = v
       else Prefix \<lparr>Section = ''server'', Prefix = [], Key = '' key '', Val = ''  value ''\<rparr> = [] \<and>
            Key \<lparr>Section = ''server'', Prefix = [], Key = '' key '', Val = ''  value ''\<rparr> = k \<and>
            Val \<lparr>Section = ''server'', Prefix = [], Key = '' key '', Val = ''  value ''\<rparr> = v))"
proof -
  have h: "\<lparr>Section = ''server'', Prefix = [], Key = '' key '', Val = ''  value ''\<rparr>
     \<in> set (fst (parseLine ''server'' '' key :  value ''))"
    by code_simp
  with C9_no_trimming [of "\<lparr>Section = ''server'', Prefix = [], Key = '' key '', Val = ''  value ''\<rparr>"
      "''server''" "'' key :  value ''"]
  show ?thesis by blast
qed

subsection \<open>Compound keys without pairs\<close>

text \<open>
  C10: a line whose key starts with \<open>cmdstat_\<close> or \<open>db\<close> and whose value has no equals sign
  gives no record and no error.
\<close>

theorem C10_compound_key_swallowed:
  assumes "HasPrefix k ''cmdstat_'' \<or> HasPrefix k ''db''" and "CHR '':'' \<notin> set k"
    and "CHR ''='' \<notin> set v"
  shows "parseLine section (k @ CHR '':'' # v) = ([], None)"
  using assms by (simp add: parseLine_kv parseKVLine_no_eq)

text \<open>The statement at a concrete input, the line \<open>dbsize:10\<close>.\<close>

theorem C10_compound_key_swallowed_witness:
  "(HasPrefix ''dbsize'' ''cmdstat_'' \<or> HasPrefix ''dbsize'' ''db'') \<and> CHR '':'' \<notin> set ''dbsize'' \<and>
   CHR ''='' \<notin> set ''10'' \<and> parseLine ''keyspace'' ''dbsize:10'' = ([], None)"
  using C10_compound_key_swallowed [of "''dbsize''" "''10''" "''keyspace''"]
  by (simp add: HasPrefix_def)

end
